theory Spec2Isabelle
  imports Main "HOL-Library.AList" "HOL-Library.Sublist" "HOL-Library.Char_ord"
    "HOL-Library.List_Lexorder"
begin

section \<open>Python values, errors and the notebook's environment\<close>

text \<open>
  The notebooks are sequences of cells; a cell that raises stops there. Every raise of
  the modelled cells is a value of \<open>error\<close>, and a cell returns \<open>error + 'a\<close>
  (\<open>Inl\<close> the exception).
\<close>

datatype error =
    FileNotFoundError string
  | YAMLError
  | NameError string
  | KeyError string
  | TypeError
  | PackageNotFoundError string
  | Exception string

section \<open>The version guard (Train_and_infer_mnist.ipynb, second cell)\<close>

text \<open>
  \<^verbatim>\<open>
  from importlib.metadata import version
  if version('mlflow') != "2.4.0":
      raise Exception("Restart the kernel and try again")
  \<close>
  The installed distributions are a map from package name to version string;
  \<open>importlib.metadata.version\<close> raises \<open>PackageNotFoundError\<close> for a package that is
  not installed.
\<close>

type_synonym installed = "string \<rightharpoonup> string"

definition version :: "installed \<Rightarrow> string \<Rightarrow> error + string" where
  "version inst pkg =
     (case inst pkg of None \<Rightarrow> Inl (PackageNotFoundError pkg) | Some v \<Rightarrow> Inr v)"

definition guard_cell :: "installed \<Rightarrow> error + unit" where
  "guard_cell inst =
     (case version inst ''mlflow'' of
        Inl e \<Rightarrow> Inl e
      | Inr v \<Rightarrow>
          if v \<noteq> ''2.4.0'' then Inl (Exception ''Restart the kernel and try again'')
          else Inr ())"

text \<open>
  The workflow is the guard cell followed by the remaining cells, run in order: the
  rest is reached only when the guard returns.
\<close>

definition workflow :: "installed \<Rightarrow> (error + 'a) \<Rightarrow> error + 'a" where
  "workflow inst rest = (case guard_cell inst of Inl e \<Rightarrow> Inl e | Inr _ \<Rightarrow> rest)"

section \<open>The model-save step (Train_and_infer_mnist.ipynb, lines 202-208)\<close>

text \<open>
  \<^verbatim>\<open>
  mlflow_tf_model_save_path_backup = mlflow.tensorflow._MODEL_SAVE_PATH
  mlflow.tensorflow._MODEL_SAVE_PATH += "/1"
  model_info = mlflow.tensorflow.log_model(model=model_mnist, ...)
  mlflow.tensorflow._MODEL_SAVE_PATH = mlflow_tf_model_save_path_backup
  \<close>
  The interpreter state holds the module attribute \<open>_MODEL_SAVE_PATH\<close> and
  everything else the library call may touch (\<open>ext\<close>). \<open>log_model\<close> belongs to the
  mlflow library: it is a parameter, any function of the state that either raises or
  returns a model info and a new state (it may even write the attribute). There is no
  \<open>try/finally\<close>: when \<open>log_model\<close> raises, the last assignment is not executed and
  the state is the one \<open>log_model\<close> was called in.
\<close>

record 'e py_state =
  MODEL_SAVE_PATH :: string
  ext :: 'e

type_synonym ('e, 'i) library_call = "'e py_state \<Rightarrow> error + ('i \<times> 'e py_state)"

definition save_step :: "('e, 'i) library_call \<Rightarrow> 'e py_state \<Rightarrow> (error + 'i) \<times> 'e py_state" where
  "save_step log_model s =
     (let mlflow_tf_model_save_path_backup = MODEL_SAVE_PATH s;
          s1 = s\<lparr>MODEL_SAVE_PATH := MODEL_SAVE_PATH s @ ''/1''\<rparr>
      in case log_model s1 of
           Inl e \<Rightarrow> (Inl e, s1)
         | Inr (model_info, s2) \<Rightarrow>
             (Inr model_info, s2\<lparr>MODEL_SAVE_PATH := mlflow_tf_model_save_path_backup\<rparr>))"

text \<open>A library call used to exercise the step: it records the path it saw.\<close>

definition log_model_ok :: "(string list, string) library_call" where
  "log_model_ok s = Inr (MODEL_SAVE_PATH s, s\<lparr>ext := MODEL_SAVE_PATH s # ext s\<rparr>)"

section \<open>YAML documents as Python objects\<close>

text \<open>
  \<open>yaml.safe_load\<close> returns Python objects. A scalar (\<open>None\<close>, a bool, an int, a
  str) is a value by itself; a dict or a list is an object of the heap, and a value
  refers to it by its address (\<open>PRef\<close>). For a YAML anchor and all its aliases
  \<open>safe_load\<close> builds one object: the places that name it hold the same address, and
  a store into the object shows at every one of them. A dict keeps its keys in
  insertion order: it is an association list, read with \<open>map_of\<close>; the keys of the
  documents modelled are strings. Floats do not occur in what the cells touch and are
  left out.
\<close>

type_synonym addr = nat

datatype pyval = PNone | PBool bool | PInt int | PStr string | PRef addr

datatype pyobj = PDict "(string \<times> pyval) list" | PList "pyval list"

type_synonym heap = "addr \<rightharpoonup> pyobj"

text \<open>
  \<open>x[k]\<close> with a string key: a dict raises \<open>KeyError\<close> for a missing key; a list, a
  string or any other scalar raises \<open>TypeError\<close>.
\<close>

fun subscript :: "heap \<Rightarrow> pyval \<Rightarrow> string \<Rightarrow> error + pyval" where
  "subscript h (PRef a) k =
     (case h a of
        Some (PDict kvs) \<Rightarrow>
          (case map_of kvs k of None \<Rightarrow> Inl (KeyError k) | Some v \<Rightarrow> Inr v)
      | _ \<Rightarrow> Inl TypeError)"
| "subscript h _ k = Inl TypeError"

text \<open>
  \<open>x[k] = v\<close> stores in place, into the object \<open>x\<close> refers to: a dict replaces the
  value of an existing key where it stands and appends a new key at the end
  (\<open>AList.update\<close>); anything else raises \<open>TypeError\<close>. Every other object of the
  heap is left as it is.
\<close>

fun setitem :: "heap \<Rightarrow> pyval \<Rightarrow> string \<Rightarrow> pyval \<Rightarrow> error + heap" where
  "setitem h (PRef a) k v =
     (case h a of
        Some (PDict kvs) \<Rightarrow> Inr (h(a \<mapsto> PDict (AList.update k v kvs)))
      | _ \<Rightarrow> Inl TypeError)"
| "setitem h _ k v = Inl TypeError"

section \<open>The materialization cell (Train_and_infer_mnist.ipynb, lines 240-249)\<close>

text \<open>
  \<^verbatim>\<open>
  with open('/mnt/shared/.../gpu_mnist_inferenceservice.yaml', 'r') as file:
      inferenceservice_yaml_data = yaml.safe_load(file)

  inferenceservice_yaml_data["spec"]["predictor"]["tensorflow"]["storageUri"] = saved_model_path

  with open('/tmp/gpu_mnist_inferenceservice.yaml', 'w') as yaml_file:
      yaml.dump(inferenceservice_yaml_data, yaml_file)

  !kubectl apply -f /tmp/gpu_mnist_inferenceservice.yaml
  \<close>
  The assignment reads \<open>["spec"]\<close>, \<open>["predictor"]\<close> and \<open>["tensorflow"]\<close> in turn
  and stores into the dict the last subscript returns. The first failing subscript
  decides the exception.
\<close>

definition assign_storageUri :: "heap \<Rightarrow> pyval \<Rightarrow> pyval \<Rightarrow> error + heap" where
  "assign_storageUri h inferenceservice_yaml_data saved_model_path =
     (case subscript h inferenceservice_yaml_data ''spec'' of
        Inl e \<Rightarrow> Inl e
      | Inr spec \<Rightarrow>
     (case subscript h spec ''predictor'' of
        Inl e \<Rightarrow> Inl e
      | Inr predictor \<Rightarrow>
     (case subscript h predictor ''tensorflow'' of
        Inl e \<Rightarrow> Inl e
      | Inr tensorflow \<Rightarrow> setitem h tensorflow ''storageUri'' saved_model_path)))"

text \<open>
  The template file itself is not part of the sources: its content is an input. The
  bytes of a file are represented by what \<open>yaml.safe_load\<close> makes of them: the loaded
  value and the heap of its objects (\<open>Doc\<close>), or \<open>Malformed\<close> when they are not
  YAML. \<open>yaml.dump\<close> writes the keys of every mapping in sorted order (its default
  \<open>sort_keys=True\<close>) and an anchor for every object that occurs twice, so the file it
  writes holds the same objects with their keys sorted. The world is the file system and
  the list of manifests handed to the cluster by \<open>kubectl apply\<close>, in order.
  \<open>saved_model_path\<close> is a global of the notebook, set by an earlier cell: reading an
  unset name raises \<open>NameError\<close>, and the right-hand side of the assignment is
  evaluated before the subscripts of its target. A global that is a collection is a
  reference into the same heap.
\<close>

datatype content = Doc pyval heap | Malformed

type_synonym filesystem = "string \<rightharpoonup> content"

type_synonym globals = "string \<rightharpoonup> pyval"

record world =
  files :: filesystem
  applied :: "content list"

definition template_path :: string where
  "template_path = ''/mnt/shared/ezua-tutorials/Data-Science/Kubeflow-GPU/gpu_mnist_inferenceservice.yaml''"

definition output_path :: string where
  "output_path = ''/tmp/gpu_mnist_inferenceservice.yaml''"

definition open_read :: "filesystem \<Rightarrow> string \<Rightarrow> error + content" where
  "open_read fs p = (case fs p of None \<Rightarrow> Inl (FileNotFoundError p) | Some c \<Rightarrow> Inr c)"

fun safe_load :: "content \<Rightarrow> error + (pyval \<times> heap)" where
  "safe_load (Doc d h) = Inr (d, h)"
| "safe_load Malformed = Inl YAMLError"

fun sort_keys :: "pyobj \<Rightarrow> pyobj" where
  "sort_keys (PDict kvs) = PDict (sort_key fst kvs)"
| "sort_keys (PList xs) = PList xs"

definition sorted_heap :: "heap \<Rightarrow> heap" where
  "sorted_heap h = map_option sort_keys \<circ> h"

definition yaml_dump :: "pyval \<Rightarrow> heap \<Rightarrow> content" where
  "yaml_dump d h = Doc d (sorted_heap h)"

definition lookup_name :: "globals \<Rightarrow> string \<Rightarrow> error + pyval" where
  "lookup_name g n = (case g n of None \<Rightarrow> Inl (NameError n) | Some v \<Rightarrow> Inr v)"

text \<open>
  A shell line (\<open>!kubectl ...\<close>) never raises in the notebook. \<open>kubectl apply -f p\<close>
  hands the content of \<open>p\<close> to the cluster; what the cluster's admission control then
  does with it is outside the repository.
\<close>

definition kubectl_apply :: "string \<Rightarrow> world \<Rightarrow> world" where
  "kubectl_apply p w =
     (case files w p of None \<Rightarrow> w | Some c \<Rightarrow> w\<lparr>applied := applied w @ [c]\<rparr>)"

definition materialize_cell :: "globals \<Rightarrow> world \<Rightarrow> (error + unit) \<times> world" where
  "materialize_cell g w =
     (case open_read (files w) template_path of
        Inl e \<Rightarrow> (Inl e, w)
      | Inr file \<Rightarrow>
     (case safe_load file of
        Inl e \<Rightarrow> (Inl e, w)
      | Inr (inferenceservice_yaml_data, h) \<Rightarrow>
     (case lookup_name g ''saved_model_path'' of
        Inl e \<Rightarrow> (Inl e, w)
      | Inr saved_model_path \<Rightarrow>
     (case assign_storageUri h inferenceservice_yaml_data saved_model_path of
        Inl e \<Rightarrow> (Inl e, w)
      | Inr h' \<Rightarrow>
          (Inr (),
           kubectl_apply output_path
             (w\<lparr>files := (files w)(output_path \<mapsto> yaml_dump inferenceservice_yaml_data h')\<rparr>))))))"

section \<open>Fields, placeholder tokens and resource quantities\<close>

text \<open>
  A field of a document is named by a path from the loaded value: dict keys and list
  indices, followed through the heap. The field of a collection is the reference to it.
  \<open>reads_entry h a k p x\<close> says that following \<open>p\<close> from \<open>x\<close> reads the entry
  \<open>k\<close> of the dict at address \<open>a\<close> on its way.
\<close>

datatype step = Key string | Idx nat

fun get_path :: "heap \<Rightarrow> step list \<Rightarrow> pyval \<Rightarrow> pyval option" where
  "get_path h [] x = Some x"
| "get_path h (Key k # ps) (PRef a) =
     (case h a of
        Some (PDict kvs) \<Rightarrow>
          (case map_of kvs k of None \<Rightarrow> None | Some c \<Rightarrow> get_path h ps c)
      | _ \<Rightarrow> None)"
| "get_path h (Idx i # ps) (PRef a) =
     (case h a of
        Some (PList xs) \<Rightarrow> (if i < length xs then get_path h ps (xs ! i) else None)
      | _ \<Rightarrow> None)"
| "get_path h (_ # _) _ = None"

fun reads_entry :: "heap \<Rightarrow> addr \<Rightarrow> string \<Rightarrow> step list \<Rightarrow> pyval \<Rightarrow> bool" where
  "reads_entry h a k [] x = False"
| "reads_entry h a k (Key k' # ps) (PRef b) =
     (case h b of
        Some (PDict kvs) \<Rightarrow>
          (b = a \<and> k' = k) \<or>
          (case map_of kvs k' of None \<Rightarrow> False | Some c \<Rightarrow> reads_entry h a k ps c)
      | _ \<Rightarrow> False)"
| "reads_entry h a k (Idx i # ps) (PRef b) =
     (case h b of
        Some (PList xs) \<Rightarrow> i < length xs \<and> reads_entry h a k ps (xs ! i)
      | _ \<Rightarrow> False)"
| "reads_entry h a k (_ # _) _ = False"

definition slot_parent :: "step list" where
  "slot_parent = [Key ''spec'', Key ''predictor'', Key ''tensorflow'']"


text \<open>
  The values of a document are those reachable from the loaded value: the value
  itself, and every value held by a reachable dict or list.
\<close>

fun succs :: "heap \<Rightarrow> pyval \<Rightarrow> pyval list" where
  "succs h (PRef a) =
     (case h a of Some (PDict kvs) \<Rightarrow> map snd kvs | Some (PList xs) \<Rightarrow> xs | None \<Rightarrow> [])"
| "succs h _ = []"

inductive reach :: "heap \<Rightarrow> pyval \<Rightarrow> pyval \<Rightarrow> bool" for h :: heap and r :: pyval where
  reach_root: "reach h r r"
| reach_step: "reach h r x \<Longrightarrow> y \<in> set (succs h x) \<Longrightarrow> reach h r y"

code_pred reach .

text \<open>
  Placeholder tokens, in the two syntaxes the manifests of the repository use:
  \<open><username>\<close> (DataProcessTransferFts-JarLocal-3.3.1.yaml, line 56) and
  \<open>{{dag_run.conf.get("username")}}\<close> (spark_etl_new.yaml, lines 41-61). A string
  has a token when it has a \<open><\<close> with a \<open>>\<close> after it, or a \<open>{{\<close> with a \<open>}}\<close>
  after it. \<open>after_sub pat s\<close> is what follows the first occurrence of \<open>pat\<close> in
  \<open>s\<close>. A document has a token when a reachable string has one, or a key of a
  reachable dict.
\<close>

fun angle_token :: "string \<Rightarrow> bool" where
  "angle_token [] = False"
| "angle_token (c # cs) = (if c = CHR ''<'' then CHR ''>'' \<in> set cs else angle_token cs)"

fun after_sub :: "string \<Rightarrow> string \<Rightarrow> string option" where
  "after_sub pat [] = (if pat = [] then Some [] else None)"
| "after_sub pat (c # cs) =
     (if prefix pat (c # cs) then Some (drop (length pat) (c # cs)) else after_sub pat cs)"

definition brace_token :: "string \<Rightarrow> bool" where
  "brace_token s =
     (case after_sub ''{{'' s of None \<Rightarrow> False | Some r \<Rightarrow> after_sub ''}}'' r \<noteq> None)"

definition has_token :: "string \<Rightarrow> bool" where
  "has_token s \<longleftrightarrow> angle_token s \<or> brace_token s"

fun val_has_token :: "heap \<Rightarrow> pyval \<Rightarrow> bool" where
  "val_has_token h (PStr s) = has_token s"
| "val_has_token h (PRef a) =
     (case h a of Some (PDict kvs) \<Rightarrow> list_ex has_token (map fst kvs) | _ \<Rightarrow> False)"
| "val_has_token h _ = False"

definition doc_has_token :: "heap \<Rightarrow> pyval \<Rightarrow> bool" where
  "doc_has_token h d \<longleftrightarrow> (\<exists>x. reach h d x \<and> val_has_token h x)"

text \<open>
  A template has tokens outside the slot when it still has one after the slot
  \<open>spec.predictor.tensorflow.storageUri\<close> has been blanked.
\<close>

definition tokens_outside_slot :: "heap \<Rightarrow> pyval \<Rightarrow> bool" where
  "tokens_outside_slot h d =
     (case assign_storageUri h d PNone of
        Inl _ \<Rightarrow> doc_has_token h d
      | Inr h0 \<Rightarrow> doc_has_token h0 d)"

text \<open>What a file content, and the descriptor the cell wrote, holds.\<close>

fun content_has_token :: "content \<Rightarrow> bool" where
  "content_has_token (Doc d h) = doc_has_token h d"
| "content_has_token Malformed = False"


definition descriptor_has_token :: "world \<Rightarrow> bool" where
  "descriptor_has_token w =
     (case files w output_path of Some c \<Rightarrow> content_has_token c | None \<Rightarrow> False)"


text \<open>
  Resource quantities, following the specification's words ("driver cores greater
  than coreLimit"): \<open>cores: 1\<close> is a number of cores, \<open>coreLimit: "1000m"\<close> a quantity in
  millicores, \<open>coreLimit: "1"\<close> a quantity in cores. Both are compared in millicores.
\<close>

definition digit_val :: "char \<Rightarrow> nat option" where
  "digit_val c =
     (let n = (of_char c :: nat) in if 48 \<le> n \<and> n \<le> 57 then Some (n - 48) else None)"

fun digits_acc :: "nat \<Rightarrow> string \<Rightarrow> nat option" where
  "digits_acc n [] = Some n"
| "digits_acc n (c # cs) =
     (case digit_val c of None \<Rightarrow> None | Some d \<Rightarrow> digits_acc (10 * n + d) cs)"

definition parse_digits :: "string \<Rightarrow> nat option" where
  "parse_digits s = (if s = [] then None else digits_acc 0 s)"

definition quantity_millis :: "string \<Rightarrow> nat option" where
  "quantity_millis s =
     (if s \<noteq> [] \<and> last s = CHR ''m'' then parse_digits (butlast s)
      else map_option (\<lambda>n. 1000 * n) (parse_digits s))"

fun cpu_millis :: "pyval \<Rightarrow> nat option" where
  "cpu_millis (PInt n) = (if 0 \<le> n then Some (1000 * nat n) else None)"
| "cpu_millis (PStr s) = quantity_millis s"
| "cpu_millis _ = None"

definition cores_exceed_limit :: "string \<Rightarrow> heap \<Rightarrow> pyval \<Rightarrow> bool" where
  "cores_exceed_limit role h d =
     (case (get_path h [Key ''spec'', Key role, Key ''cores''] d,
            get_path h [Key ''spec'', Key role, Key ''coreLimit''] d) of
        (Some c, Some l) \<Rightarrow>
          (case (cpu_millis c, cpu_millis l) of
             (Some request, Some limit) \<Rightarrow> limit < request
           | _ \<Rightarrow> False)
      | _ \<Rightarrow> False)"

definition request_exceeds_limit :: "heap \<Rightarrow> pyval \<Rightarrow> bool" where
  "request_exceeds_limit h d \<longleftrightarrow>
     cores_exceed_limit ''driver'' h d \<or> cores_exceed_limit ''executor'' h d"

fun content_exceeds_limit :: "content \<Rightarrow> bool" where
  "content_exceeds_limit (Doc d h) = request_exceeds_limit h d"
| "content_exceeds_limit Malformed = False"

section \<open>The polling loop (Train_and_infer_mnist.ipynb, line 259)\<close>

text \<open>
  \<^verbatim>\<open>
  !until kubectl get pods -l serving.kserve.io/inferenceservice=gpu-mnist-inferenceservice
      | grep -q "Running"; do sleep 10; done
  \<close>
  The cluster is an input: \<open>kubectl_get_pods n\<close> is the listing printed at the poll
  made after \<open>n\<close> sleeps of 10 seconds. \<open>grep -q\<close> succeeds when the listing contains
  the pattern. The loop has no other exit, so it is a partial function: \<open>Some n\<close> when
  it stops at poll \<open>n\<close>, \<open>None\<close> when it never stops. The \<open>kubectl wait
  --timeout=600s\<close> of line 261 runs only after the loop has stopped.
\<close>

definition grep_q :: "string \<Rightarrow> string \<Rightarrow> bool" where
  "grep_q pat out \<longleftrightarrow> after_sub pat out \<noteq> None"

partial_function (option) until_running :: "(nat \<Rightarrow> string) \<Rightarrow> nat \<Rightarrow> nat option" where
  "until_running kubectl_get_pods n =
     (if grep_q ''Running'' (kubectl_get_pods n) then Some n
      else until_running kubectl_get_pods (Suc n))"

section \<open>Example inputs\<close>

text \<open>
  A template in the shape of the inference service manifest, a saved-model URI, and
  templates that carry the volume and driver sections of the two Spark manifests. Every
  template is loaded at address 0; its \<open>spec.predictor.tensorflow\<close> mapping is the
  object at address 4, and \<open>filled_tensorflow v\<close> is that object after the store.
\<close>

definition predictor_objects :: "(addr \<times> pyobj) list" where
  "predictor_objects =
     [(3, PDict [(''tensorflow'', PRef 4)]),
      (4, PDict [(''storageUri'', PStr ''''), (''runtimeVersion'', PStr ''2.9.0-gpu'')])]"

definition filled_tensorflow :: "pyval \<Rightarrow> pyobj" where
  "filled_tensorflow v = PDict [(''storageUri'', v), (''runtimeVersion'', PStr ''2.9.0-gpu'')]"

definition inference_heap :: heap where
  "inference_heap =
     map_of ([(0, PDict [(''apiVersion'', PStr ''serving.kserve.io/v1beta1''),
                         (''kind'', PStr ''InferenceService''),
                         (''metadata'', PRef 1),
                         (''spec'', PRef 2)]),
              (1, PDict [(''name'', PStr ''gpu-mnist-inferenceservice'')]),
              (2, PDict [(''predictor'', PRef 3)])] @ predictor_objects)"

definition saved_model_uri :: pyval where
  "saved_model_uri = PStr ''s3://mlflow/1/artifacts/model/data/model''"

definition notebook_globals :: globals where
  "notebook_globals = [''saved_model_path'' \<mapsto> saved_model_uri]"

definition world_with :: "heap \<Rightarrow> world" where
  "world_with h = \<lparr>files = [template_path \<mapsto> Doc (PRef 0) h], applied = []\<rparr>"

definition etl_heap :: heap where
  "etl_heap =
     map_of ([(0, PDict [(''kind'', PStr ''InferenceService''), (''spec'', PRef 2)]),
              (2, PDict [(''predictor'', PRef 3), (''volumes'', PRef 5)]),
              (5, PList [PRef 6, PRef 7]),
              (6, PDict [(''name'', PStr ''{{dag_run.conf.get(\"username\")}}-volume''),
                         (''persistentVolumeClaim'', PRef 8)]),
              (7, PDict [(''name'', PStr ''shared-volume''),
                         (''persistentVolumeClaim'', PRef 9)]),
              (8, PDict [(''claimName'', PStr ''{{dag_run.conf.get(\"username\")}}-spark-pvc'')]),
              (9, PDict [(''claimName'', PStr ''kubeflow-shared-pvc'')])] @ predictor_objects)"

definition etl_globals :: globals where
  "etl_globals = [''saved_model_path'' \<mapsto> saved_model_uri, ''username'' \<mapsto> PStr ''alice'']"

definition pvc_heap :: heap where
  "pvc_heap =
     map_of ([(0, PDict [(''kind'', PStr ''InferenceService''), (''spec'', PRef 2)]),
              (2, PDict [(''predictor'', PRef 3), (''volumes'', PRef 5)]),
              (5, PList [PRef 6]),
              (6, PDict [(''name'', PStr ''spark-data''),
                         (''persistentVolumeClaim'', PRef 7)]),
              (7, PDict [(''claimName'', PStr ''<username>-<namespace>-pvc'')])]
             @ predictor_objects)"

definition over_limit_heap :: heap where
  "over_limit_heap =
     map_of ([(0, PDict [(''kind'', PStr ''InferenceService''), (''spec'', PRef 2)]),
              (2, PDict [(''predictor'', PRef 3), (''driver'', PRef 5)]),
              (5, PDict [(''cores'', PInt 2), (''coreLimit'', PStr ''1''),
                         (''memory'', PStr ''1g'')])] @ predictor_objects)"



definition never_running_pods :: "nat \<Rightarrow> string" where
  "never_running_pods n = ''gpu-mnist-inferenceservice-predictor-0   0/2   Pending   0   1m''"

definition pods_running_at_third_poll :: "nat \<Rightarrow> string" where
  "pods_running_at_third_poll n =
     (if n < 2 then ''gpu-mnist-inferenceservice-predictor-0   0/2   Pending   0   1m''
      else ''gpu-mnist-inferenceservice-predictor-0   2/2   Running   0   2m'')"

section \<open>The version guard and the model-save step, verified\<close>

lemma guard_cell_returns_iff:
  "guard_cell inst = Inr () \<longleftrightarrow> inst ''mlflow'' = Some ''2.4.0''"
  by (simp add: guard_cell_def version_def split: option.splits)

text \<open>
  C8. The version guard is sound: the workflow proceeds past the guard cell (the rest
  of the workflow is its result) if and only if the installed mlflow version is
  "2.4.0"; for any other installed version the guard raises
  \<open>Exception("Restart the kernel and try again")\<close> and the rest is not reached,
  whatever the rest would do.
\<close>

theorem version_guard_sound:
  "(guard_cell inst = Inr () \<longleftrightarrow> inst ''mlflow'' = Some ''2.4.0'') \<and>
   (inst ''mlflow'' = Some ''2.4.0'' \<longrightarrow> workflow inst rest = rest) \<and>
   (\<forall>v. inst ''mlflow'' = Some v \<and> v \<noteq> ''2.4.0'' \<longrightarrow>
        guard_cell inst = Inl (Exception ''Restart the kernel and try again'') \<and>
        workflow inst rest = Inl (Exception ''Restart the kernel and try again''))"
  by (auto simp: workflow_def guard_cell_def version_def split: option.splits)

theorem version_guard_sound_witness:
  "guard_cell [''mlflow'' \<mapsto> ''2.4.0''] = Inr () \<and>
   workflow [''mlflow'' \<mapsto> ''2.4.0''] (Inr (7::nat)) = Inr 7 \<and>
   workflow [''mlflow'' \<mapsto> ''2.5.0''] (Inr (7::nat)) =
     Inl (Exception ''Restart the kernel and try again'')"
  using version_guard_sound [of "[''mlflow'' \<mapsto> ''2.4.0'']" "Inr (7::nat)"]
        version_guard_sound [of "[''mlflow'' \<mapsto> ''2.5.0'']" "Inr (7::nat)"]
  by simp

text \<open>
  C10. The model-save step restores the global: whenever \<open>log_model\<close> completes,
  \<open>_MODEL_SAVE_PATH\<close> after the step equals its value before the step, whatever
  \<open>log_model\<close> did to the state, and \<open>log_model\<close> itself ran with the "/1" suffix appended.
\<close>

theorem save_step_restores_path:
  assumes "log_model (s\<lparr>MODEL_SAVE_PATH := MODEL_SAVE_PATH s @ ''/1''\<rparr>) = Inr (info, s2)"
  shows "save_step log_model s = (Inr info, s2\<lparr>MODEL_SAVE_PATH := MODEL_SAVE_PATH s\<rparr>) \<and>
         MODEL_SAVE_PATH (snd (save_step log_model s)) = MODEL_SAVE_PATH s"
  using assms by (simp add: save_step_def Let_def)

theorem save_step_restores_path_witness:
  "save_step log_model_ok \<lparr>MODEL_SAVE_PATH = ''model'', ext = []\<rparr> =
     (Inr ''model/1'', \<lparr>MODEL_SAVE_PATH = ''model'', ext = [''model/1'']\<rparr>) \<and>
   MODEL_SAVE_PATH (snd (save_step log_model_ok \<lparr>MODEL_SAVE_PATH = ''model'', ext = []\<rparr>)) = ''model''"
  using save_step_restores_path [of log_model_ok "\<lparr>MODEL_SAVE_PATH = ''model'', ext = []\<rparr>"
      "''model/1''" "\<lparr>MODEL_SAVE_PATH = ''model/1'', ext = [''model/1'']\<rparr>"]
  by (simp add: log_model_ok_def)

lemma save_step_raise_keeps_suffix:
  assumes "log_model (s\<lparr>MODEL_SAVE_PATH := MODEL_SAVE_PATH s @ ''/1''\<rparr>) = Inl e"
  shows "save_step log_model s = (Inl e, s\<lparr>MODEL_SAVE_PATH := MODEL_SAVE_PATH s @ ''/1''\<rparr>)"
  using assms by (simp add: save_step_def Let_def)

section \<open>Subscripts, stores and paths\<close>

lemma subscript_Inr:
  "subscript h x k = Inr c \<longleftrightarrow> (\<exists>a kvs. x = PRef a \<and> h a = Some (PDict kvs) \<and> map_of kvs k = Some c)"
proof (cases x)
  case (PRef a)
  show ?thesis
  proof (cases "h a")
    case None
    with PRef show ?thesis by simp
  next
    case (Some obj)
    with PRef show ?thesis by (cases obj; cases "map_of (case obj of PDict kvs \<Rightarrow> kvs | _ \<Rightarrow> []) k") auto
  qed
qed simp_all

lemma setitem_Inr:
  "setitem h x k v = Inr h' \<longleftrightarrow>
   (\<exists>a kvs. x = PRef a \<and> h a = Some (PDict kvs) \<and> h' = h(a \<mapsto> PDict (AList.update k v kvs)))"
proof (cases x)
  case (PRef a)
  show ?thesis
  proof (cases "h a")
    case None
    with PRef show ?thesis by simp
  next
    case (Some obj)
    with PRef show ?thesis by (cases obj) auto
  qed
qed simp_all

lemma get_path_Key:
  "get_path h (Key k # ps) x =
     (case subscript h x k of Inl e \<Rightarrow> None | Inr c \<Rightarrow> get_path h ps c)"
proof (cases x)
  case (PRef a)
  show ?thesis
  proof (cases "h a")
    case None
    with PRef show ?thesis by simp
  next
    case (Some obj)
    with PRef show ?thesis by (cases obj) (simp_all split: option.splits)
  qed
qed simp_all

lemma assign_storageUri_Inr:
  "assign_storageUri h d v = Inr h' \<longleftrightarrow>
   (\<exists>a t. get_path h slot_parent d = Some (PRef a) \<and> h a = Some (PDict t) \<and>
      h' = h(a \<mapsto> PDict (AList.update ''storageUri'' v t)))"
proof -
  have "assign_storageUri h d v = Inr h' \<longleftrightarrow>
        (\<exists>x. get_path h slot_parent d = Some x \<and> setitem h x ''storageUri'' v = Inr h')"
    by (simp add: assign_storageUri_def slot_parent_def get_path_Key split: sum.splits)
  also have "\<dots> \<longleftrightarrow> (\<exists>a t. get_path h slot_parent d = Some (PRef a) \<and> h a = Some (PDict t) \<and>
      h' = h(a \<mapsto> PDict (AList.update ''storageUri'' v t)))"
    by (simp add: setitem_Inr) blast
  finally show ?thesis .
qed

lemma assign_storageUri_succeeds_iff:
  "(\<exists>h'. assign_storageUri h d v = Inr h') \<longleftrightarrow>
   (\<exists>a t. get_path h slot_parent d = Some (PRef a) \<and> h a = Some (PDict t))"
  by (simp add: assign_storageUri_Inr) blast


lemma get_path_store_frame:
  assumes "h a = Some (PDict t)"
  shows "\<not> reads_entry h a k p x \<Longrightarrow>
         get_path (h(a \<mapsto> PDict (AList.update k v t))) p x = get_path h p x"
proof (induction p arbitrary: x)
  case Nil
  then show ?case by simp
next
  case (Cons s ps)
  show ?case
  proof (cases x)
    case (PRef b)
    show ?thesis
    proof (cases "h b")
      case None
      with assms have "b \<noteq> a" by auto
      with None PRef show ?thesis by (cases s) simp_all
    next
      case (Some obj)
      show ?thesis
      proof (cases s)
        case (Key k')
        show ?thesis
        proof (cases obj)
          case (PDict kvs)
          from Cons.prems PRef Key Some PDict
          have nr: "\<not> (b = a \<and> k' = k)"
            and rec: "\<And>c. map_of kvs k' = Some c \<Longrightarrow> \<not> reads_entry h a k ps c"
            by auto
          show ?thesis
          proof (cases "b = a")
            case True
            with assms Some PDict have t: "kvs = t" by simp
            from nr True have "k' \<noteq> k" by simp
            then have "map_of (AList.update k v t) k' = map_of t k'"
              by (simp add: update_conv')
            with True t PRef Key Some PDict rec Cons.IH show ?thesis
              by (simp split: option.splits)
          next
            case False
            with PRef Key Some PDict rec Cons.IH show ?thesis
              by (simp split: option.splits)
          qed
        next
          case (PList xs)
          with assms Some have "b \<noteq> a" by auto
          with PRef Key Some PList show ?thesis by simp
        qed
      next
        case (Idx i)
        show ?thesis
        proof (cases obj)
          case (PDict kvs)
          with PRef Idx Some show ?thesis by (cases "b = a") simp_all
        next
          case (PList xs)
          with assms Some have "b \<noteq> a" by auto
          with PRef Idx Some PList Cons show ?thesis by simp
        qed
      qed
    qed
  qed (cases s; simp)+
qed

lemma not_reads_entry_without_key:
  "Key k \<notin> set p \<Longrightarrow> \<not> reads_entry h a k p x"
proof (induction p arbitrary: x)
  case Nil
  then show ?case by simp
next
  case (Cons s ps)
  show ?case
  proof (cases x)
    case (PRef b)
    show ?thesis
    proof (cases "h b")
      case None
      with PRef show ?thesis by (cases s) simp_all
    next
      case (Some obj)
      with PRef Cons show ?thesis
        by (cases obj; cases s) (auto split: option.splits)
    qed
  qed (cases s; simp)+
qed






section \<open>The dump keeps fields, reachable values and tokens\<close>

lemma map_of_insort_key:
  "map_of (insort_key fst kv kvs) = (map_of kvs)(fst kv \<mapsto> snd kv)"
proof (induction kvs)
  case Nil
  then show ?case by simp
next
  case (Cons y ys)
  show ?case
  proof (cases "fst kv \<le> fst y")
    case True
    then show ?thesis by (auto simp: fun_eq_iff)
  next
    case False
    then have "fst y \<noteq> fst kv" by auto
    with False Cons show ?thesis by (auto simp: fun_eq_iff)
  qed
qed

lemma map_of_sort_key: "map_of (sort_key fst kvs) = map_of kvs"
proof (induction kvs)
  case Nil
  then show ?case by simp
next
  case (Cons kv kvs)
  have "map_of (sort_key fst (kv # kvs)) = (map_of (sort_key fst kvs))(fst kv \<mapsto> snd kv)"
    by (simp add: map_of_insort_key)
  also have "\<dots> = map_of (kv # kvs)" using Cons by simp
  finally show ?case .
qed

lemma sorted_heap_None: "sorted_heap h a = None \<longleftrightarrow> h a = None"
  by (simp add: sorted_heap_def)

lemma sorted_heap_PDict: "h a = Some (PDict kvs) \<Longrightarrow> sorted_heap h a = Some (PDict (sort_key fst kvs))"
  by (simp add: sorted_heap_def)

lemma sorted_heap_PList: "h a = Some (PList xs) \<Longrightarrow> sorted_heap h a = Some (PList xs)"
  by (simp add: sorted_heap_def)

lemma get_path_sorted_heap: "get_path (sorted_heap h) p x = get_path h p x"
proof (induction p arbitrary: x)
  case Nil
  then show ?case by simp
next
  case (Cons s ps)
  show ?case
  proof (cases x)
    case (PRef a)
    show ?thesis
    proof (cases "h a")
      case None
      then have "sorted_heap h a = None" by (simp add: sorted_heap_None)
      with None PRef show ?thesis by (cases s) simp_all
    next
      case (Some obj)
      show ?thesis
      proof (cases obj)
        case (PDict kvs)
        with Some have "sorted_heap h a = Some (PDict (sort_key fst kvs))"
          by (simp add: sorted_heap_PDict)
        with Some PDict PRef Cons show ?thesis
          by (cases s) (simp_all add: map_of_sort_key split: option.splits)
      next
        case (PList xs)
        with Some have "sorted_heap h a = Some (PList xs)" by (simp add: sorted_heap_PList)
        with Some PList PRef Cons show ?thesis by (cases s) simp_all
      qed
    qed
  qed (cases s; simp)+
qed

lemma set_succs_sorted_heap: "set (succs (sorted_heap h) x) = set (succs h x)"
proof (cases x)
  case (PRef a)
  show ?thesis
  proof (cases "h a")
    case None
    then have "sorted_heap h a = None" by (simp add: sorted_heap_None)
    with None PRef show ?thesis by simp
  next
    case (Some obj)
    show ?thesis
    proof (cases obj)
      case (PDict kvs)
      with Some have "sorted_heap h a = Some (PDict (sort_key fst kvs))"
        by (simp add: sorted_heap_PDict)
      moreover have "set (map snd (sort_key fst kvs)) = set (map snd kvs)" by simp
      ultimately show ?thesis using Some PDict PRef by simp
    next
      case (PList xs)
      with Some have "sorted_heap h a = Some (PList xs)" by (simp add: sorted_heap_PList)
      with Some PList PRef show ?thesis by simp
    qed
  qed
qed simp_all

lemma reach_sorted_heap: "reach (sorted_heap h) r x \<longleftrightarrow> reach h r x"
proof
  assume "reach (sorted_heap h) r x"
  then show "reach h r x"
  proof (induction rule: reach.induct)
    case reach_root
    show ?case by (rule reach.reach_root)
  next
    case (reach_step x y)
    then have "y \<in> set (succs h x)" by (simp add: set_succs_sorted_heap)
    with reach_step.IH show ?case by (rule reach.reach_step)
  qed
next
  assume "reach h r x"
  then show "reach (sorted_heap h) r x"
  proof (induction rule: reach.induct)
    case reach_root
    show ?case by (rule reach.reach_root)
  next
    case (reach_step x y)
    then have "y \<in> set (succs (sorted_heap h) x)" by (simp add: set_succs_sorted_heap)
    with reach_step.IH show ?case by (rule reach.reach_step)
  qed
qed

lemma val_has_token_sorted_heap: "val_has_token (sorted_heap h) x \<longleftrightarrow> val_has_token h x"
proof (cases x)
  case (PRef a)
  show ?thesis
  proof (cases "h a")
    case None
    then have "sorted_heap h a = None" by (simp add: sorted_heap_None)
    with None PRef show ?thesis by simp
  next
    case (Some obj)
    show ?thesis
    proof (cases obj)
      case (PDict kvs)
      with Some have "sorted_heap h a = Some (PDict (sort_key fst kvs))"
        by (simp add: sorted_heap_PDict)
      moreover have "set (map fst (sort_key fst kvs)) = set (map fst kvs)" by simp
      ultimately show ?thesis using Some PDict PRef by (simp add: list_ex_iff del: set_map)
    next
      case (PList xs)
      with Some have "sorted_heap h a = Some (PList xs)" by (simp add: sorted_heap_PList)
      with Some PList PRef show ?thesis by simp
    qed
  qed
qed simp_all

lemma doc_has_token_sorted_heap: "doc_has_token (sorted_heap h) d \<longleftrightarrow> doc_has_token h d"
  by (simp add: doc_has_token_def reach_sorted_heap val_has_token_sorted_heap)

lemma request_exceeds_limit_sorted_heap:
  "request_exceeds_limit (sorted_heap h) d = request_exceeds_limit h d"
  by (simp only: request_exceeds_limit_def cores_exceed_limit_def get_path_sorted_heap)

section \<open>Reachable values and tokens under the store\<close>

lemma reach_trans: "reach h x y \<Longrightarrow> reach h r x \<Longrightarrow> reach h r y"
proof (induction rule: reach.induct)
  case reach_root
  then show ?case .
next
  case (reach_step y z)
  then show ?case using reach.reach_step by blast
qed

lemma map_of_in_succs:
  "h a = Some (PDict kvs) \<Longrightarrow> map_of kvs k = Some c \<Longrightarrow> c \<in> set (succs h (PRef a))"
  by (auto dest: map_of_SomeD intro: image_eqI[where x = "(k, c)"])

lemma get_path_reach: "get_path h p x = Some y \<Longrightarrow> reach h x y"
proof (induction p arbitrary: x)
  case Nil
  then have "y = x" by simp
  then show ?case using reach.reach_root by simp
next
  case (Cons s ps)
  from Cons.prems obtain a where x: "x = PRef a" by (cases x; cases s) simp_all
  from Cons.prems x obtain obj where obj: "h a = Some obj" by (cases "h a"; cases s) simp_all
  have "\<exists>c. c \<in> set (succs h x) \<and> get_path h ps c = Some y"
  proof (cases s)
    case (Key k)
    with Cons.prems x obj obtain kvs c where "obj = PDict kvs" "map_of kvs k = Some c"
      "get_path h ps c = Some y"
      by (cases obj) (auto split: option.splits)
    with obj x map_of_in_succs[of h a kvs k c] show ?thesis by blast
  next
    case (Idx i)
    with Cons.prems x obj obtain xs where "obj = PList xs" "i < length xs"
      "get_path h ps (xs ! i) = Some y"
      by (cases obj) (auto split: if_splits)
    then have "xs ! i \<in> set (succs h x) \<and> get_path h ps (xs ! i) = Some y"
      using obj x by simp
    then show ?thesis by blast
  qed
  then obtain c where c: "c \<in> set (succs h x)" "get_path h ps c = Some y" by blast
  from c(2) have "reach h c y" by (rule Cons.IH)
  moreover from c(1) have "reach h x c" using reach.reach_root reach.reach_step by blast
  ultimately show ?case by (rule reach_trans)
qed

lemma doc_has_token_path:
  "get_path h p d = Some x \<Longrightarrow> val_has_token h x \<Longrightarrow> doc_has_token h d"
  using get_path_reach doc_has_token_def by blast

lemma reach_closed:
  assumes "d \<in> S" and "\<And>x. x \<in> S \<Longrightarrow> set (succs h x) \<subseteq> S" and "reach h d x"
  shows "x \<in> S"
  using assms(3)
proof (induction rule: reach.induct)
  case reach_root
  show ?case by (rule assms(1))
next
  case (reach_step x y)
  with assms(2)[of x] show ?case by blast
qed

lemma token_free_closed:
  assumes "d \<in> set vs"
    and "list_all (\<lambda>x. list_all (\<lambda>y. y \<in> set vs) (succs h x)) vs"
    and "list_all (\<lambda>x. \<not> val_has_token h x) vs"
  shows "\<not> doc_has_token h d"
proof
  assume "doc_has_token h d"
  then obtain x where x: "reach h d x" "val_has_token h x" by (auto simp: doc_has_token_def)
  have "x \<in> set vs"
  proof (rule reach_closed[OF assms(1) _ x(1)])
    fix y assume "y \<in> set vs"
    with assms(2) show "set (succs h y) \<subseteq> set vs" by (auto simp: list_all_iff)
  qed
  with assms(3) x(2) show False by (auto simp: list_all_iff)
qed

lemma doc_has_token_scalar: "doc_has_token h (PStr s) \<longleftrightarrow> has_token s"
proof
  have only: "reach h (PStr s) x \<Longrightarrow> x = PStr s" for x
    by (induction rule: reach.induct) auto
  assume "doc_has_token h (PStr s)"
  then obtain x where "reach h (PStr s) x" "val_has_token h x"
    by (auto simp: doc_has_token_def)
  with only[of x] show "has_token s" by simp
next
  assume "has_token s"
  then have "val_has_token h (PStr s)" by simp
  with reach.reach_root[of h "PStr s"] show "doc_has_token h (PStr s)"
    unfolding doc_has_token_def by blast
qed

lemma update_set_cases:
  "y \<in> set (AList.update k v t) \<Longrightarrow> y = (k, v) \<or> (y \<in> set t \<and> y \<in> set (AList.update k v0 t))"
  by (induction t) (auto split: if_splits)

lemma update_keys_set: "set (map fst (AList.update k v t)) = insert k (set (map fst t))"
  by (induction t) auto

lemma succs_store_other:
  "b \<noteq> a \<Longrightarrow> succs (h(a \<mapsto> obj)) (PRef b) = succs h (PRef b)"
  by simp

lemma val_has_token_store_other:
  "b \<noteq> a \<Longrightarrow> val_has_token (h(a \<mapsto> obj)) (PRef b) = val_has_token h (PRef b)"
  by simp

lemma val_has_token_store_slot:
  "val_has_token (h(a \<mapsto> PDict (AList.update k v t))) (PRef a) =
   val_has_token (h(a \<mapsto> PDict (AList.update k v0 t))) (PRef a)"
  by (simp add: list_ex_iff update_keys_set del: set_map)

lemma store_reach:
  assumes "h a = Some (PDict t)"
    and "reach (h(a \<mapsto> PDict (AList.update k v t))) d x"
  shows "reach (h(a \<mapsto> PDict (AList.update k v0 t))) d x \<or> reach h v x"
  using assms(2)
proof (induction rule: reach.induct)
  case reach_root
  show ?case using reach.reach_root by blast
next
  case (reach_step x y)
  let ?h' = "h(a \<mapsto> PDict (AList.update k v t))"
  let ?h0 = "h(a \<mapsto> PDict (AList.update k v0 t))"
  from reach_step.hyps(2) obtain b where x: "x = PRef b" by (cases x) simp_all
  show ?case
  proof (cases "b = a")
    case False
    with x reach_step.hyps(2) have "y \<in> set (succs ?h0 x)" "y \<in> set (succs h x)" by simp_all
    with reach_step.IH show ?thesis using reach.reach_step by blast
  next
    case True
    with x reach_step.hyps(2) obtain k' where "(k', y) \<in> set (AList.update k v t)" by auto
    from update_set_cases[OF this, of v0]
    show ?thesis
    proof
      assume "(k', y) = (k, v)"
      then have "y = v" by simp
      then show ?thesis using reach.reach_root by blast
    next
      assume in_both: "(k', y) \<in> set t \<and> (k', y) \<in> set (AList.update k v0 t)"
      from reach_step.IH show ?thesis
      proof
        assume "reach ?h0 d x"
        moreover from in_both x True have "y \<in> set (succs ?h0 x)" by force
        ultimately show ?thesis using reach.reach_step by blast
      next
        assume "reach h v x"
        moreover from in_both x True assms(1) have "y \<in> set (succs h x)" by force
        ultimately show ?thesis using reach.reach_step by blast
      qed
    qed
  qed
qed

lemma store_token_free:
  assumes slot: "get_path h slot_parent d = Some (PRef a)" "h a = Some (PDict t)"
    and blank: "\<not> doc_has_token (h(a \<mapsto> PDict (AList.update ''storageUri'' PNone t))) d"
    and val: "\<not> doc_has_token h v"
  shows "\<not> doc_has_token (h(a \<mapsto> PDict (AList.update ''storageUri'' v t))) d"
proof
  let ?h' = "h(a \<mapsto> PDict (AList.update ''storageUri'' v t))"
  let ?h0 = "h(a \<mapsto> PDict (AList.update ''storageUri'' PNone t))"
  assume "doc_has_token ?h' d"
  then obtain x where x: "reach ?h' d x" "val_has_token ?h' x"
    by (auto simp: doc_has_token_def)
  have "Key ''storageUri'' \<notin> set slot_parent" by (simp add: slot_parent_def)
  then have "\<not> reads_entry h a ''storageUri'' slot_parent d"
    by (rule not_reads_entry_without_key)
  with slot(2) have "get_path ?h0 slot_parent d = get_path h slot_parent d"
    by (rule get_path_store_frame)
  with slot(1) have "reach ?h0 d (PRef a)" by (simp add: get_path_reach)
  with blank have slot_free: "\<not> val_has_token ?h0 (PRef a)"
    by (auto simp: doc_has_token_def)
  from store_reach[OF slot(2) x(1), of PNone]
  have r: "reach ?h0 d x \<or> reach h v x" .
  show False
  proof (cases x)
    case (PStr s)
    with x(2) have "val_has_token ?h0 x" "val_has_token h x" by simp_all
    with r blank val show False by (auto simp: doc_has_token_def)
  next
    case (PRef b)
    show False
    proof (cases "b = a")
      case True
      with PRef x(2) have "val_has_token ?h0 (PRef a)"
        using val_has_token_store_slot[of h a "''storageUri''" v t PNone] by simp
      with slot_free show False by simp
    next
      case False
      with PRef x(2) have "val_has_token ?h0 x" "val_has_token h x" by simp_all
      with r blank val show False by (auto simp: doc_has_token_def)
    qed
  qed (use x(2) in simp_all)
qed

section \<open>The materialization cell, verified\<close>

lemma materialize_cell_ok:
  "files w template_path = Some (Doc d h) \<Longrightarrow> g ''saved_model_path'' = Some v \<Longrightarrow>
   assign_storageUri h d v = Inr h' \<Longrightarrow>
   materialize_cell g w =
     (Inr (), w\<lparr>files := (files w)(output_path \<mapsto> yaml_dump d h'),
                applied := applied w @ [yaml_dump d h']\<rparr>)"
  by (simp add: materialize_cell_def open_read_def lookup_name_def kubectl_apply_def)

lemma materialize_cell_cases:
  "(\<exists>e. materialize_cell g w = (Inl e, w)) \<or>
   (\<exists>d h v h'. files w template_path = Some (Doc d h) \<and> g ''saved_model_path'' = Some v \<and>
      assign_storageUri h d v = Inr h' \<and>
      materialize_cell g w =
        (Inr (), w\<lparr>files := (files w)(output_path \<mapsto> yaml_dump d h'),
                   applied := applied w @ [yaml_dump d h']\<rparr>))"
proof (cases "files w template_path")
  case None
  then show ?thesis by (simp add: materialize_cell_def open_read_def)
next
  case (Some c)
  show ?thesis
  proof (cases c)
    case Malformed
    with Some show ?thesis by (simp add: materialize_cell_def open_read_def)
  next
    case (Doc d h)
    show ?thesis
    proof (cases "g ''saved_model_path''")
      case None
      with Some Doc show ?thesis
        by (simp add: materialize_cell_def open_read_def lookup_name_def)
    next
      case v: (Some v)
      show ?thesis
      proof (cases "assign_storageUri h d v")
        case (Inl e)
        with Some Doc v show ?thesis
          by (simp add: materialize_cell_def open_read_def lookup_name_def)
      next
        case (Inr h')
        have "files w template_path = Some (Doc d h)" using Some Doc by simp
        from materialize_cell_ok[of w d h g v h', OF this v Inr] this v Inr
        show ?thesis by blast
      qed
    qed
  qed
qed


lemma cell_on:
  assumes "assign_storageUri h (PRef 0) v = Inr h'" and "g ''saved_model_path'' = Some v"
  shows "materialize_cell g (world_with h) =
     (Inr (), \<lparr>files = [template_path \<mapsto> Doc (PRef 0) h, output_path \<mapsto> yaml_dump (PRef 0) h'],
               applied = [yaml_dump (PRef 0) h']\<rparr>)"
proof -
  have "files (world_with h) template_path = Some (Doc (PRef 0) h)"
    by (simp add: world_with_def)
  with materialize_cell_ok[of "world_with h" "PRef 0" h g v h'] assms show ?thesis
    by (simp add: world_with_def)
qed



lemma inference_slot:
  "get_path inference_heap slot_parent (PRef 0) = Some (PRef 4) \<and>
   inference_heap 4 =
     Some (PDict [(''storageUri'', PStr ''''), (''runtimeVersion'', PStr ''2.9.0-gpu'')])"
  by (simp add: inference_heap_def predictor_objects_def slot_parent_def)

lemma inference_assign:
  "assign_storageUri inference_heap (PRef 0) v = Inr (inference_heap(4 \<mapsto> filled_tensorflow v))"
  by (simp add: assign_storageUri_def inference_heap_def predictor_objects_def
      filled_tensorflow_def)

lemma inference_blank_token_free:
  "\<not> doc_has_token (inference_heap(4 \<mapsto> filled_tensorflow PNone)) (PRef 0)"
proof (rule token_free_closed[where vs =
      "[PRef 0, PRef 1, PRef 2, PRef 3, PRef 4, PNone,
        PStr ''serving.kserve.io/v1beta1'', PStr ''InferenceService'',
        PStr ''gpu-mnist-inferenceservice'', PStr ''2.9.0-gpu'']"])
  let ?h = "inference_heap(4 \<mapsto> filled_tensorflow PNone)"
  let ?vs = "[PRef 0, PRef 1, PRef 2, PRef 3, PRef 4, PNone,
        PStr ''serving.kserve.io/v1beta1'', PStr ''InferenceService'',
        PStr ''gpu-mnist-inferenceservice'', PStr ''2.9.0-gpu'']"
  show "PRef 0 \<in> set ?vs" by simp
  show "list_all (\<lambda>x. list_all (\<lambda>y. y \<in> set ?vs) (succs ?h x)) ?vs"
    by (simp add: inference_heap_def predictor_objects_def filled_tensorflow_def)
  show "list_all (\<lambda>x. \<not> val_has_token ?h x) ?vs"
    by (simp add: inference_heap_def predictor_objects_def filled_tensorflow_def
        has_token_def brace_token_def)
qed


lemma etl_assign:
  "assign_storageUri etl_heap (PRef 0) v = Inr (etl_heap(4 \<mapsto> filled_tensorflow v))"
  by (simp add: assign_storageUri_def etl_heap_def predictor_objects_def filled_tensorflow_def)

lemma pvc_assign:
  "assign_storageUri pvc_heap (PRef 0) v = Inr (pvc_heap(4 \<mapsto> filled_tensorflow v))"
  by (simp add: assign_storageUri_def pvc_heap_def predictor_objects_def filled_tensorflow_def)

lemma over_limit_assign:
  "assign_storageUri over_limit_heap (PRef 0) v = Inr (over_limit_heap(4 \<mapsto> filled_tensorflow v))"
  by (simp add: assign_storageUri_def over_limit_heap_def predictor_objects_def filled_tensorflow_def)


lemma etl_token: "doc_has_token (etl_heap(4 \<mapsto> obj)) (PRef 0)"
proof (rule doc_has_token_path)
  show "get_path (etl_heap(4 \<mapsto> obj)) [Key ''spec'', Key ''volumes'', Idx 0, Key ''name''] (PRef 0) =
        Some (PStr ''{{dag_run.conf.get(\"username\")}}-volume'')"
    by (simp add: etl_heap_def)
  show "val_has_token (etl_heap(4 \<mapsto> obj)) (PStr ''{{dag_run.conf.get(\"username\")}}-volume'')"
    by (simp add: has_token_def brace_token_def)
qed


lemma pvc_template_token: "doc_has_token pvc_heap (PRef 0)"
proof (rule doc_has_token_path)
  show "get_path pvc_heap
          [Key ''spec'', Key ''volumes'', Idx 0, Key ''persistentVolumeClaim'', Key ''claimName'']
          (PRef 0) =
        Some (PStr ''<username>-<namespace>-pvc'')"
    by (simp add: pvc_heap_def)
  show "val_has_token pvc_heap (PStr ''<username>-<namespace>-pvc'')"
    by (simp add: has_token_def)
qed

lemma over_limit:
  "cores_exceed_limit ''driver'' (over_limit_heap(4 \<mapsto> obj)) (PRef 0)"
  by (simp add: cores_exceed_limit_def over_limit_heap_def
      quantity_millis_def parse_digits_def digit_val_def)

lemma over_limit_template:
  "cores_exceed_limit ''driver'' over_limit_heap (PRef 0)"
  by (simp add: cores_exceed_limit_def over_limit_heap_def
      quantity_millis_def parse_digits_def digit_val_def)

text \<open>
  C1 (as amended). For every template that has the mapping \<open>spec.predictor.tensorflow\<close>
  and no placeholder token outside its \<open>storageUri\<close> slot, and every notebook state
  whose \<open>saved_model_path\<close> is a value without placeholder tokens, the cell succeeds,
  and the descriptor it writes and applies contains no placeholder token.
\<close>

theorem materialize_single_slot:
  assumes "files w template_path = Some (Doc d h)"
    and "get_path h slot_parent d = Some (PRef a)"
    and "h a = Some (PDict t)"
    and "\<not> tokens_outside_slot h d"
    and "g ''saved_model_path'' = Some v"
    and "\<not> doc_has_token h v"
  shows "\<exists>c. materialize_cell g w =
           (Inr (), w\<lparr>files := (files w)(output_path \<mapsto> c),
                      applied := applied w @ [c]\<rparr>) \<and>
         \<not> content_has_token c"
proof -
  let ?h' = "h(a \<mapsto> PDict (AList.update ''storageUri'' v t))"
  let ?h0 = "h(a \<mapsto> PDict (AList.update ''storageUri'' PNone t))"
  have s': "assign_storageUri h d v = Inr ?h'"
    using assms(2,3) by (auto simp: assign_storageUri_Inr)
  have "assign_storageUri h d PNone = Inr ?h0"
    using assms(2,3) by (auto simp: assign_storageUri_Inr)
  with assms(4) have "\<not> doc_has_token ?h0 d"
    by (simp add: tokens_outside_slot_def)
  with assms(2,3,6) have "\<not> doc_has_token ?h' d"
    using store_token_free[of h d a t v] by blast
  then have "\<not> content_has_token (yaml_dump d ?h')"
    by (simp add: yaml_dump_def doc_has_token_sorted_heap)
  with materialize_cell_ok[of w d h g v ?h', OF assms(1) assms(5) s'] show ?thesis by blast
qed

theorem materialize_single_slot_witness:
  "fst (materialize_cell notebook_globals (world_with inference_heap)) = Inr () \<and>
   \<not> descriptor_has_token (snd (materialize_cell notebook_globals (world_with inference_heap)))"
proof -
  have 1: "files (world_with inference_heap) template_path = Some (Doc (PRef 0) inference_heap)"
    by (simp add: world_with_def)
  have 2: "get_path inference_heap slot_parent (PRef 0) = Some (PRef 4)"
    and 3: "inference_heap 4 =
      Some (PDict [(''storageUri'', PStr ''''), (''runtimeVersion'', PStr ''2.9.0-gpu'')])"
    using inference_slot by simp_all
  have 4: "\<not> tokens_outside_slot inference_heap (PRef 0)"
    by (simp add: tokens_outside_slot_def inference_assign inference_blank_token_free)
  have 5: "notebook_globals ''saved_model_path'' = Some saved_model_uri"
    by (simp add: notebook_globals_def)
  have 6: "\<not> doc_has_token inference_heap saved_model_uri"
    by (simp add: saved_model_uri_def doc_has_token_scalar has_token_def brace_token_def)
  from materialize_single_slot[of "world_with inference_heap" "PRef 0" inference_heap 4
      "[(''storageUri'', PStr []), (''runtimeVersion'', PStr ''2.9.0-gpu'')]"
      notebook_globals saved_model_uri] 1 2 3 4 5 6
  show ?thesis
    by (auto simp: descriptor_has_token_def)
qed

text \<open>
  The claim as stated, for every template and placeholder set, fails: the cell resolves
  the one slot only. A template that also carries the volumes of spark_etl_new.yaml,
  with a context that supplies both \<open>saved_model_path\<close> and \<open>username\<close>, is
  materialized with the \<open>{{dag_run.conf.get("username")}}\<close> tokens still in it.
\<close>

theorem other_tokens_remain:
  "fst (materialize_cell etl_globals (world_with etl_heap)) = Inr () \<and>
   descriptor_has_token (snd (materialize_cell etl_globals (world_with etl_heap)))"
proof -
  have "etl_globals ''saved_model_path'' = Some saved_model_uri"
    by (simp add: etl_globals_def)
  with cell_on[of etl_heap saved_model_uri "etl_heap(4 \<mapsto> filled_tensorflow saved_model_uri)" etl_globals] etl_assign show ?thesis
    by (simp add: descriptor_has_token_def yaml_dump_def doc_has_token_sorted_heap etl_token)
qed

text \<open>
  C2 (as amended). When the template loads and the notebook has no global
  \<open>saved_model_path\<close>, the only name the cell resolves, the cell fails with
  \<open>NameError\<close> naming \<open>saved_model_path\<close>, and nothing is written or applied.
\<close>

theorem missing_saved_model_path_NameError:
  assumes "files w template_path = Some (Doc d h)" and "g ''saved_model_path'' = None"
  shows "materialize_cell g w = (Inl (NameError ''saved_model_path''), w)"
  using assms by (simp add: materialize_cell_def open_read_def lookup_name_def)

theorem missing_saved_model_path_NameError_witness:
  "materialize_cell Map.empty (world_with inference_heap) =
     (Inl (NameError ''saved_model_path''), world_with inference_heap)"
  using missing_saved_model_path_NameError[of "world_with inference_heap" "PRef 0"
      inference_heap Map.empty]
  by (simp add: world_with_def)

text \<open>
  The claim as stated fails: tokens inside the template are not looked up. With the
  claim name \<open><username>-<namespace>-pvc\<close> of
  DataProcessTransferFts-JarLocal-3.3.1.yaml in the template and neither \<open>username\<close>
  nor \<open>namespace\<close> in the context, the cell returns without an error.
\<close>

theorem missing_token_not_reported:
  "doc_has_token pvc_heap (PRef 0) \<and>
   notebook_globals ''username'' = None \<and> notebook_globals ''namespace'' = None \<and>
   fst (materialize_cell notebook_globals (world_with pvc_heap)) = Inr ()"
proof -
  have "notebook_globals ''saved_model_path'' = Some saved_model_uri"
    by (simp add: notebook_globals_def)
  with cell_on[of pvc_heap saved_model_uri "pvc_heap(4 \<mapsto> filled_tensorflow saved_model_uri)" notebook_globals] pvc_assign show ?thesis
    by (simp add: pvc_template_token notebook_globals_def)
qed

text \<open>
  C3 (as amended). The cell performs no resource validation: it returns exactly when
  the template file holds a document, \<open>saved_model_path\<close> is set and
  \<open>spec.predictor.tensorflow\<close> is a mapping, whatever the resource requests and
  limits of the document are.
\<close>

theorem materialize_cell_no_resource_validation:
  "fst (materialize_cell g w) = Inr () \<longleftrightarrow>
   (\<exists>d h v a t. files w template_path = Some (Doc d h) \<and> g ''saved_model_path'' = Some v \<and>
      get_path h slot_parent d = Some (PRef a) \<and> h a = Some (PDict t))"
proof
  assume "fst (materialize_cell g w) = Inr ()"
  with materialize_cell_cases[of g w] obtain d h v h' where
    "files w template_path = Some (Doc d h)" "g ''saved_model_path'' = Some v"
    "assign_storageUri h d v = Inr h'"
    by auto
  with assign_storageUri_succeeds_iff[of h d v]
  show "\<exists>d h v a t. files w template_path = Some (Doc d h) \<and>
      g ''saved_model_path'' = Some v \<and> get_path h slot_parent d = Some (PRef a) \<and>
      h a = Some (PDict t)"
    by blast
next
  assume "\<exists>d h v a t. files w template_path = Some (Doc d h) \<and>
      g ''saved_model_path'' = Some v \<and> get_path h slot_parent d = Some (PRef a) \<and>
      h a = Some (PDict t)"
  then obtain d h v a t where hyp: "files w template_path = Some (Doc d h)"
    "g ''saved_model_path'' = Some v" "get_path h slot_parent d = Some (PRef a)"
    "h a = Some (PDict t)"
    by blast
  from hyp(3,4) assign_storageUri_succeeds_iff[of h d v]
  obtain h' where "assign_storageUri h d v = Inr h'" by blast
  from materialize_cell_ok[of w d h g v h', OF hyp(1) hyp(2) this]
  show "fst (materialize_cell g w) = Inr ()" by simp
qed

theorem materialize_cell_no_resource_validation_witness:
  "fst (materialize_cell notebook_globals (world_with inference_heap)) = Inr ()"
proof -
  have "files (world_with inference_heap) template_path = Some (Doc (PRef 0) inference_heap)"
    by (simp add: world_with_def)
  moreover have "notebook_globals ''saved_model_path'' = Some saved_model_uri"
    by (simp add: notebook_globals_def)
  ultimately show ?thesis
    using materialize_cell_no_resource_validation[of notebook_globals "world_with inference_heap"]
      inference_slot
    by blast
qed

text \<open>
  The claim as stated fails: a descriptor whose driver asks for 2 cores with
  \<open>coreLimit: "1"\<close> is written and applied, not rejected.
\<close>

theorem over_limit_descriptor_applied:
  "request_exceeds_limit over_limit_heap (PRef 0) \<and>
   fst (materialize_cell notebook_globals (world_with over_limit_heap)) = Inr () \<and>
   map content_exceeds_limit
     (applied (snd (materialize_cell notebook_globals (world_with over_limit_heap)))) = [True]"
proof -
  have g: "notebook_globals ''saved_model_path'' = Some saved_model_uri"
    by (simp add: notebook_globals_def)
  have "request_exceeds_limit over_limit_heap (PRef 0)"
    using over_limit_template by (simp add: request_exceeds_limit_def)
  moreover have "request_exceeds_limit
      (sorted_heap (over_limit_heap(4 \<mapsto> filled_tensorflow saved_model_uri))) (PRef 0)"
    using over_limit[of "filled_tensorflow saved_model_uri"]
    by (subst request_exceeds_limit_sorted_heap) (simp add: request_exceeds_limit_def)
  ultimately show ?thesis
    using cell_on[of over_limit_heap saved_model_uri "over_limit_heap(4 \<mapsto> filled_tensorflow saved_model_uri)" notebook_globals] over_limit_assign g
    by (simp add: yaml_dump_def)
qed







section \<open>The polling loop, verified\<close>

lemma until_running_Some:
  assumes "until_running obs i = Some k"
  shows "i \<le> k \<and> grep_q ''Running'' (obs k) \<and>
         (\<forall>j. i \<le> j \<and> j < k \<longrightarrow> \<not> grep_q ''Running'' (obs j))"
proof (rule until_running.raw_induct[where
      P = "\<lambda>obs i k. i \<le> k \<and> grep_q ''Running'' (obs k) \<and>
             (\<forall>j. i \<le> j \<and> j < k \<longrightarrow> \<not> grep_q ''Running'' (obs j))",
      OF _ assms])
  fix f :: "(nat \<Rightarrow> string) \<Rightarrow> nat \<Rightarrow> nat option" and obs i k
  assume IH: "\<And>obs i k. f obs i = Some k \<Longrightarrow>
      i \<le> k \<and> grep_q ''Running'' (obs k) \<and>
      (\<forall>j. i \<le> j \<and> j < k \<longrightarrow> \<not> grep_q ''Running'' (obs j))"
    and step: "(if grep_q ''Running'' (obs i) then Some i else f obs (Suc i)) = Some k"
  show "i \<le> k \<and> grep_q ''Running'' (obs k) \<and>
      (\<forall>j. i \<le> j \<and> j < k \<longrightarrow> \<not> grep_q ''Running'' (obs j))"
  proof (cases "grep_q ''Running'' (obs i)")
    case True
    with step show ?thesis by auto
  next
    case False
    with step have "f obs (Suc i) = Some k" by simp
    from IH[OF this] False show ?thesis
      by (metis Suc_leD le_antisym not_less_eq_eq)
  qed
qed

lemma until_running_reaches:
  "grep_q ''Running'' (obs k) \<Longrightarrow> i \<le> k \<Longrightarrow> \<exists>r. until_running obs i = Some r"
proof (induction "k - i" arbitrary: i)
  case 0
  then have "i = k" by simp
  with 0 show ?case by (subst until_running.simps) simp
next
  case (Suc n)
  show ?case
  proof (cases "grep_q ''Running'' (obs i)")
    case True
    then show ?thesis by (subst until_running.simps) simp
  next
    case False
    from Suc have "n = k - Suc i" "Suc i \<le> k" by simp_all
    with Suc(1)[of "Suc i"] Suc(3) obtain r where "until_running obs (Suc i) = Some r" by blast
    with False show ?thesis by (subst until_running.simps) simp
  qed
qed

text \<open>
  C5 (as amended). The polling loop stops at poll \<open>k\<close> exactly when the listing of poll
  \<open>k\<close> is the first one that contains "Running"; when no listing ever contains it, the
  loop never stops. The loop has no timeout of its own.
\<close>

theorem until_running_stops_iff:
  "(until_running obs 0 = Some k \<longleftrightarrow>
      grep_q ''Running'' (obs k) \<and> (\<forall>j<k. \<not> grep_q ''Running'' (obs j))) \<and>
   (until_running obs 0 = None \<longleftrightarrow> (\<forall>j. \<not> grep_q ''Running'' (obs j)))"
proof -
  have some: "until_running obs 0 = Some k \<longleftrightarrow>
      grep_q ''Running'' (obs k) \<and> (\<forall>j<k. \<not> grep_q ''Running'' (obs j))"
  proof
    assume "until_running obs 0 = Some k"
    from until_running_Some[OF this]
    show "grep_q ''Running'' (obs k) \<and> (\<forall>j<k. \<not> grep_q ''Running'' (obs j))" by simp
  next
    assume h: "grep_q ''Running'' (obs k) \<and> (\<forall>j<k. \<not> grep_q ''Running'' (obs j))"
    then obtain r where r: "until_running obs 0 = Some r"
      using until_running_reaches[of obs k 0] by auto
    from until_running_Some[OF r] h have "r = k"
      by (metis le0 linorder_neqE_nat)
    with r show "until_running obs 0 = Some k" by simp
  qed
  have none: "until_running obs 0 = None \<longleftrightarrow> (\<forall>j. \<not> grep_q ''Running'' (obs j))"
  proof
    assume n: "until_running obs 0 = None"
    show "\<forall>j. \<not> grep_q ''Running'' (obs j)"
    proof (intro allI notI)
      fix j assume "grep_q ''Running'' (obs j)"
      with until_running_reaches[of obs j 0] n show False by simp
    qed
  next
    assume a: "\<forall>j. \<not> grep_q ''Running'' (obs j)"
    show "until_running obs 0 = None"
    proof (cases "until_running obs 0")
      case None
      then show ?thesis .
    next
      case (Some r)
      from until_running_Some[OF this] a show ?thesis by blast
    qed
  qed
  from some none show ?thesis by blast
qed

theorem until_running_stops_iff_witness:
  "until_running pods_running_at_third_poll 0 = Some 2"
  using until_running_stops_iff[of pods_running_at_third_poll 2]
  by (simp add: pods_running_at_third_poll_def grep_q_def less_Suc_eq numeral_2_eq_2)

text \<open>
  The claim as stated fails: on a cluster whose pod stays \<open>Pending\<close> the loop polls
  forever; it does not stop with a timeout.
\<close>

theorem until_running_polls_forever:
  "until_running never_running_pods 0 = None"
proof (cases "until_running never_running_pods 0")
  case None
  then show ?thesis .
next
  case (Some k)
  from until_running_Some[OF this] have "grep_q ''Running'' (never_running_pods k)" by simp
  then show ?thesis by (simp add: never_running_pods_def grep_q_def)
qed

end
